theory Spec2Isabelle
  imports Main
begin

section \<open>Python strings\<close>

text \<open>
  A Python \<^verbatim>\<open>str\<close> is a sequence of code points.  It is modelled by \<^typ>\<open>string\<close>, whose
  characters are the code points 0 to 255.  The four string operations used by
  \<^verbatim>\<open>ConditionalRouterComponent.evaluate_condition\<close> are built-ins of the language:
  \<^verbatim>\<open>s.lower()\<close>, \<^verbatim>\<open>sub in s\<close>, \<^verbatim>\<open>s.startswith(p)\<close> and \<^verbatim>\<open>s.endswith(p)\<close>.
\<close>

text \<open>
  \<^verbatim>\<open>str.lower\<close> on one code point below 256: the letters A to Z (65 to 90) and the
  accented capitals 192 to 222, the multiplication sign 215 excepted, move up by 32; every
  other code point is its own lower case.
\<close>

definition lower_char :: "char \<Rightarrow> char" where
  "lower_char c =
     (let n = (of_char c :: nat)
      in if 65 \<le> n \<and> n \<le> 90 then char_of (n + 32)
         else if 192 \<le> n \<and> n \<le> 222 \<and> n \<noteq> 215 then char_of (n + 32)
         else c)"

definition lower :: "string \<Rightarrow> string" where
  "lower s = map lower_char s"



text \<open>\<^verbatim>\<open>s.startswith(p)\<close>, by recursion on both strings.\<close>

fun startswith :: "string \<Rightarrow> string \<Rightarrow> bool" where
  "startswith s [] = True"
| "startswith [] (p # ps) = False"
| "startswith (c # cs) (p # ps) = (c = p \<and> startswith cs ps)"

text \<open>\<^verbatim>\<open>s.endswith(p)\<close>: the same test read from the right.\<close>

definition endswith :: "string \<Rightarrow> string \<Rightarrow> bool" where
  "endswith s p = startswith (rev s) (rev p)"

text \<open>\<^verbatim>\<open>sub in s\<close>: \<open>sub\<close> starts at some position of \<open>s\<close> (the end included).\<close>

fun contains :: "string \<Rightarrow> string \<Rightarrow> bool" where
  "contains [] sub = (sub = [])"
| "contains (c # cs) sub = (startswith (c # cs) sub \<or> contains cs sub)"


section \<open>The conditional router\<close>

subsection \<open>The predicate\<close>

text \<open>
  The dictionary \<^verbatim>\<open>operations\<close> is built in full, every entry evaluated, and then read
  with \<^verbatim>\<open>operations.get(operator, False)\<close>.
\<close>

definition operations :: "string \<Rightarrow> string \<Rightarrow> (string \<times> bool) list" where
  "operations input_text match_text =
     [(''equals'', input_text = match_text),
      (''not equals'', input_text \<noteq> match_text),
      (''contains'', contains input_text match_text),
      (''starts with'', startswith input_text match_text),
      (''ends with'', endswith input_text match_text)]"

definition evaluate_condition :: "string \<Rightarrow> string \<Rightarrow> string \<Rightarrow> bool \<Rightarrow> bool" where
  "evaluate_condition input_text match_text operator case_sensitive =
     (let (input_text, match_text) =
            (if \<not> case_sensitive then (lower input_text, lower match_text)
             else (input_text, match_text))
      in case map_of (operations input_text match_text) operator of
           None \<Rightarrow> False
         | Some b \<Rightarrow> b)"

subsection \<open>State\<close>

text \<open>
  The only operation of the decision logic that can fail is \<^verbatim>\<open>self.ctx.get(key, 0) + 1\<close>:
  the run context is a dictionary shared by the whole graph, and adding 1 to a stored value
  that is not a number raises \<^verbatim>\<open>TypeError\<close>.
\<close>

datatype error = TypeError

text \<open>
  A value stored in the run context: an integer, or any value that is not a number (a
  string, \<^verbatim>\<open>None\<close>, a list, ...), given by its printed form.
\<close>

datatype ctx_value = IntV int | OtherV string

text \<open>
  The accessors return \<^verbatim>\<open>Message | str\<close>: the pass-through message, or the empty string
  literal.
\<close>

datatype 'm response = Message 'm | EmptyStr

text \<open>
  The component instance together with the two pieces of the host it acts on.  The inputs
  are the attributes declared in \<^verbatim>\<open>inputs\<close>; \<open>iteration_updated\<close> is the private flag
  \<^verbatim>\<open>__iteration_updated\<close>, \<open>self_id\<close> is \<^verbatim>\<open>_id\<close>, \<open>ctx\<close> is the dictionary behind
  \<^verbatim>\<open>self.ctx\<close> and \<open>stopped\<close> is the sequence of edge names passed to \<^verbatim>\<open>self.stop\<close> so far.
\<close>

record 'm component =
  self_id :: string
  input_text :: string
  match_text :: string
  operator :: string
  case_sensitive :: bool
  message :: 'm
  max_iterations :: int
  default_route :: string
  iteration_updated :: bool
  status :: "'m option"
  ctx :: "string \<rightharpoonup> ctx_value"
  stopped :: "string list"

subsection \<open>Host operations\<close>

text \<open>
  Modelled from the spec: \<^verbatim>\<open>Component.ctx\<close>, \<^verbatim>\<open>Component.update_ctx\<close> and
  \<^verbatim>\<open>Component.stop\<close> belong to the base class, which is not among the sources.  The
  host graph executor "provides per-run keyed storage (\<^verbatim>\<open>get(key, default)\<close>,
  \<^verbatim>\<open>set(key, value)\<close>) for the iteration counter" and "a \<^verbatim>\<open>stopEdge(edgeName)\<close> signal
  that prunes an output edge from further traversal".
\<close>

definition ctx_get :: "'m component \<Rightarrow> string \<Rightarrow> ctx_value \<Rightarrow> ctx_value" where
  "ctx_get s k d = (case ctx s k of None \<Rightarrow> d | Some v \<Rightarrow> v)"

definition update_ctx :: "string \<Rightarrow> ctx_value \<Rightarrow> 'm component \<Rightarrow> 'm component" where
  "update_ctx k v s = s\<lparr>ctx := (ctx s)(k \<mapsto> v)\<rparr>"

definition stop :: "string \<Rightarrow> 'm component \<Rightarrow> 'm component" where
  "stop route s = s\<lparr>stopped := stopped s @ [route]\<rparr>"

text \<open>\<^verbatim>\<open>v + 1\<close> on a value read from the run context.\<close>

fun add_one :: "ctx_value \<Rightarrow> error + int" where
  "add_one (IntV n) = Inr (n + 1)"
| "add_one (OtherV r) = Inl TypeError"

subsection \<open>Methods\<close>

definition pre_run_setup :: "'m component \<Rightarrow> 'm component" where
  "pre_run_setup s = s\<lparr>iteration_updated := False\<rparr>"

text \<open>
  \<^verbatim>\<open>iterate_and_stop_once\<close>.  The addition is the first thing that can raise, before any
  assignment, so on \<open>Inl\<close> the state is the one passed in.
\<close>

definition iterate_and_stop_once :: "string \<Rightarrow> 'm component \<Rightarrow> error + 'm component" where
  "iterate_and_stop_once route_to_stop s =
     (if \<not> iteration_updated s then
        let iteration_key = self_id s @ ''_iteration''
        in case add_one (ctx_get s iteration_key (IntV 0)) of
             Inl e \<Rightarrow> Inl e
           | Inr iteration_count \<Rightarrow>
               let s1 = update_ctx iteration_key (IntV iteration_count) s;
                   s2 = s1\<lparr>iteration_updated := True\<rparr>;
                   route_to_stop =
                     (if iteration_count \<ge> max_iterations s2 \<and> route_to_stop = default_route s2
                      then (if route_to_stop = ''false_result'' then ''true_result''
                            else ''false_result'')
                      else route_to_stop)
               in Inr (stop route_to_stop s2)
      else Inr s)"

text \<open>
  The two accessors.  An exception leaves the assignments made before it in place, so the
  state is returned beside the result in both cases.
\<close>

definition true_response :: "'m component \<Rightarrow> (error + 'm response) \<times> 'm component" where
  "true_response s =
     (let result = evaluate_condition (input_text s) (match_text s) (operator s) (case_sensitive s)
      in if result then
           let s1 = s\<lparr>status := Some (message s)\<rparr>
           in case iterate_and_stop_once ''false_result'' s1 of
                Inl e \<Rightarrow> (Inl e, s1)
              | Inr s2 \<Rightarrow> (Inr (Message (message s2)), s2)
         else
           case iterate_and_stop_once ''true_result'' s of
             Inl e \<Rightarrow> (Inl e, s)
           | Inr s2 \<Rightarrow> (Inr EmptyStr, s2))"

definition false_response :: "'m component \<Rightarrow> (error + 'm response) \<times> 'm component" where
  "false_response s =
     (if \<not> evaluate_condition (input_text s) (match_text s) (operator s) (case_sensitive s) then
        let s1 = s\<lparr>status := Some (message s)\<rparr>
        in case iterate_and_stop_once ''true_result'' s1 of
             Inl e \<Rightarrow> (Inl e, s1)
           | Inr s2 \<Rightarrow> (Inr (Message (message s2)), s2)
      else
        case iterate_and_stop_once ''false_result'' s of
          Inl e \<Rightarrow> (Inl e, s)
        | Inr s2 \<Rightarrow> (Inr EmptyStr, s2))"

text \<open>The names offered by the \<^verbatim>\<open>operator\<close> drop-down, the keys of \<^verbatim>\<open>operations\<close>.\<close>

definition operator_options :: "string list" where
  "operator_options = [''equals'', ''not equals'', ''contains'', ''starts with'', ''ends with'']"

subsection \<open>Invocation by the host\<close>

text \<open>
  Modelled from the spec: the graph executor that builds the component is not among the
  sources.  One invocation cycle is "one \<^verbatim>\<open>_pre_run_setup\<close> followed by any sequence of
  \<^verbatim>\<open>true_response\<close> and \<^verbatim>\<open>false_response\<close> calls"; the per-invocation data are
  \<^verbatim>\<open>inputText\<close>, \<^verbatim>\<open>matchText\<close>, \<^verbatim>\<open>operator\<close>, \<^verbatim>\<open>caseSensitive\<close> and the pass-through
  value, while the run context lives as long as the run.  An exception in an accessor ends
  the cycle, and the run.
\<close>

datatype accessor = TrueResponse | FalseResponse

fun call_output :: "accessor \<Rightarrow> 'm component \<Rightarrow> (error + 'm response) \<times> 'm component" where
  "call_output TrueResponse s = true_response s"
| "call_output FalseResponse s = false_response s"

fun call_outputs ::
  "accessor list \<Rightarrow> 'm component \<Rightarrow> (error + 'm response list) \<times> 'm component" where
  "call_outputs [] s = (Inr [], s)"
| "call_outputs (a # as) s =
     (case call_output a s of
        (Inl e, s1) \<Rightarrow> (Inl e, s1)
      | (Inr r, s1) \<Rightarrow>
          (case call_outputs as s1 of
             (Inl e, s2) \<Rightarrow> (Inl e, s2)
           | (Inr rs, s2) \<Rightarrow> (Inr (r # rs), s2)))"

definition cycle ::
  "accessor list \<Rightarrow> 'm component \<Rightarrow> (error + 'm response list) \<times> 'm component" where
  "cycle accs s = call_outputs accs (pre_run_setup s)"

datatype 'm invocation =
  Invocation (inv_input_text: string) (inv_match_text: string) (inv_operator: string)
    (inv_case_sensitive: bool) (inv_message: 'm) (inv_outputs: "accessor list")

definition set_inputs :: "'m invocation \<Rightarrow> 'm component \<Rightarrow> 'm component" where
  "set_inputs i s =
     s\<lparr>input_text := inv_input_text i, match_text := inv_match_text i,
       operator := inv_operator i, case_sensitive := inv_case_sensitive i,
       message := inv_message i\<rparr>"

definition invoke ::
  "'m invocation \<Rightarrow> 'm component \<Rightarrow> (error + 'm response list) \<times> 'm component" where
  "invoke i s = cycle (inv_outputs i) (set_inputs i s)"

fun run :: "'m invocation list \<Rightarrow> 'm component \<Rightarrow> error + 'm component" where
  "run [] s = Inr s"
| "run (i # is) s =
     (case invoke i s of
        (Inl e, s1) \<Rightarrow> Inl e
      | (Inr rs, s1) \<Rightarrow> run is s1)"

subsection \<open>Notions used in the statements\<close>

text \<open>The value of the predicate on the inputs the component holds.\<close>

definition result :: "'m component \<Rightarrow> bool" where
  "result s = evaluate_condition (input_text s) (match_text s) (operator s) (case_sensitive s)"

text \<open>The iteration counter as \<^verbatim>\<open>self.ctx.get(iteration_key, 0)\<close> reads it.\<close>

definition counter :: "'m component \<Rightarrow> ctx_value" where
  "counter s = ctx_get s (self_id s @ ''_iteration'') (IntV 0)"

text \<open>
  The edge that does not receive the message: the one each accessor passes to
  \<^verbatim>\<open>iterate_and_stop_once\<close>.
\<close>

definition untaken :: "'m component \<Rightarrow> string" where
  "untaken s = (if result s then ''false_result'' else ''true_result'')"

text \<open>The other one of the two output names.\<close>

definition opposite :: "string \<Rightarrow> string" where
  "opposite r = (if r = ''false_result'' then ''true_result'' else ''false_result'')"

text \<open>
  The edge an invocation stops when the counter read was \<open>c\<close>: the untaken edge, or its
  opposite once \<open>c + 1\<close> has reached \<^verbatim>\<open>max_iterations\<close> and the untaken edge is the
  default route.
\<close>

definition final_stop :: "'m component \<Rightarrow> int \<Rightarrow> string" where
  "final_stop s c =
     (if c + 1 \<ge> max_iterations s \<and> untaken s = default_route s
      then opposite (untaken s) else untaken s)"

text \<open>What an accessor returns: the message on the edge of the predicate's value.\<close>

definition response_of :: "'m component \<Rightarrow> accessor \<Rightarrow> 'm response" where
  "response_of s a =
     (if (a = TrueResponse) = result s then Message (message s) else EmptyStr)"


subsection \<open>A concrete component\<close>

text \<open>
  A component as \<^verbatim>\<open>__init__\<close> leaves it (the flag false, nothing stopped), with the given
  texts, operator, iteration cap and default route, in a run whose context is \<open>c\<close>.
\<close>

definition router ::
  "string \<Rightarrow> string \<Rightarrow> string \<Rightarrow> int \<Rightarrow> string \<Rightarrow> (string \<rightharpoonup> ctx_value) \<Rightarrow> string component" where
  "router a b op n d c =
     \<lparr>self_id = ''ConditionalRouter-1'', input_text = a, match_text = b, operator = op,
      case_sensitive = False, message = ''payload'', max_iterations = n, default_route = d,
      iteration_updated = False, status = None, ctx = c, stopped = []\<rparr>"


section \<open>The string operations meet their meaning\<close>

lemma startswith_iff: "startswith s p \<longleftrightarrow> (\<exists>post. s = p @ post)"
  by (induction s p rule: startswith.induct) auto

lemma endswith_iff: "endswith s p \<longleftrightarrow> (\<exists>pre. s = pre @ p)"
proof -
  have "endswith s p \<longleftrightarrow> (\<exists>post. rev s = rev p @ post)"
    by (simp add: endswith_def startswith_iff)
  also have "\<dots> \<longleftrightarrow> (\<exists>pre. s = pre @ p)"
  proof
    assume "\<exists>post. rev s = rev p @ post"
    then obtain post where "rev s = rev p @ post" ..
    then have "s = rev post @ p" by (metis rev_append rev_rev_ident)
    then show "\<exists>pre. s = pre @ p" ..
  next
    assume "\<exists>pre. s = pre @ p"
    then obtain pre where "s = pre @ p" ..
    then have "rev s = rev p @ rev pre" by simp
    then show "\<exists>post. rev s = rev p @ post" ..
  qed
  finally show ?thesis .
qed


lemma lower_Nil: "lower [] = []"
  by (simp add: lower_def)


section \<open>The predicate\<close>

lemma map_of_operations:
  "map_of (operations x y) op =
     (if op = ''equals'' then Some (x = y)
      else if op = ''not equals'' then Some (x \<noteq> y)
      else if op = ''contains'' then Some (contains x y)
      else if op = ''starts with'' then Some (startswith x y)
      else if op = ''ends with'' then Some (endswith x y)
      else None)"
  by (simp add: operations_def)

lemma evaluate_condition_operands:
  "evaluate_condition a b op cs =
     (case map_of (operations (if cs then a else lower a) (if cs then b else lower b)) op of
        None \<Rightarrow> False
      | Some v \<Rightarrow> v)"
  by (simp add: evaluate_condition_def)




text \<open>
  C5.  An operator that is not one of the five names of the drop-down makes the predicate
  false, whatever the two strings and the case flag; there is no error to raise.
\<close>

theorem evaluate_condition_unrecognized:
  "op \<notin> set operator_options \<Longrightarrow> \<not> evaluate_condition a b op cs"
  by (simp add: operator_options_def evaluate_condition_operands map_of_operations)

theorem evaluate_condition_unrecognized_witness:
  "''matches'' \<notin> set operator_options \<and> \<not> evaluate_condition ''abc'' ''abc'' ''matches'' True
     \<and> \<not> evaluate_condition ''abc'' ''abc'' ''Equals'' False"
  using evaluate_condition_unrecognized [of "''matches''" "''abc''" "''abc''" True]
    evaluate_condition_unrecognized [of "''Equals''" "''abc''" "''abc''" False]
  by (simp add: operator_options_def)

text \<open>
  C6.  On the same strings and the same case flag, \<^verbatim>\<open>equals\<close> gives the negation of
  \<^verbatim>\<open>not equals\<close>.
\<close>

theorem equals_is_not_not_equals:
  "evaluate_condition a b ''equals'' cs = (\<not> evaluate_condition a b ''not equals'' cs)"
  by (simp add: evaluate_condition_operands map_of_operations)

text \<open>
  C7.  Every string contains the empty string, starts with itself and ends with itself,
  with either value of the case flag.
\<close>

theorem empty_and_self_match:
  "evaluate_condition a [] ''contains'' cs \<and>
   evaluate_condition a a ''starts with'' cs \<and>
   evaluate_condition a a ''ends with'' cs"
proof -
  have c: "contains x []" for x by (induction x) simp_all
  have s: "startswith x x" for x by (simp add: startswith_iff)
  have e: "endswith x x" for x by (simp add: endswith_iff)
  show ?thesis
    by (simp add: evaluate_condition_operands map_of_operations lower_Nil c s e)
qed


section \<open>One step of the iteration guard\<close>

lemma iterate_flag_set:
  "iteration_updated s \<Longrightarrow> iterate_and_stop_once r s = Inr s"
  by (simp add: iterate_and_stop_once_def)

lemma iterate_type_error:
  "\<not> iteration_updated s \<Longrightarrow> counter s = OtherV v \<Longrightarrow> iterate_and_stop_once r s = Inl TypeError"
  by (simp add: iterate_and_stop_once_def counter_def)

lemma iterate_first:
  "\<not> iteration_updated s \<Longrightarrow> counter s = IntV c \<Longrightarrow>
   iterate_and_stop_once r s =
     Inr (s\<lparr>ctx := (ctx s)(self_id s @ ''_iteration'' \<mapsto> IntV (c + 1)),
           iteration_updated := True,
           stopped := stopped s @
             [if c + 1 \<ge> max_iterations s \<and> r = default_route s then opposite r else r]\<rparr>)"
  by (simp add: iterate_and_stop_once_def counter_def update_ctx_def stop_def opposite_def Let_def)

lemma counter_status [simp]: "counter (s\<lparr>status := x\<rparr>) = counter s"
  by (simp add: counter_def ctx_get_def)

lemma result_status [simp]: "result (s\<lparr>status := x\<rparr>) = result s"
  by (simp add: result_def)

lemma true_response_first:
  assumes "\<not> iteration_updated s" "counter s = IntV c"
  shows "true_response s =
     (Inr (if result s then Message (message s) else EmptyStr),
      s\<lparr>status := (if result s then Some (message s) else status s),
        ctx := (ctx s)(self_id s @ ''_iteration'' \<mapsto> IntV (c + 1)),
        iteration_updated := True,
        stopped := stopped s @ [final_stop s c]\<rparr>)"
  using assms
  by (simp add: true_response_def iterate_first final_stop_def untaken_def result_def[symmetric] Let_def)

lemma false_response_first:
  assumes "\<not> iteration_updated s" "counter s = IntV c"
  shows "false_response s =
     (Inr (if result s then EmptyStr else Message (message s)),
      s\<lparr>status := (if result s then status s else Some (message s)),
        ctx := (ctx s)(self_id s @ ''_iteration'' \<mapsto> IntV (c + 1)),
        iteration_updated := True,
        stopped := stopped s @ [final_stop s c]\<rparr>)"
  using assms
  by (simp add: false_response_def iterate_first final_stop_def untaken_def result_def[symmetric] Let_def)

lemma true_response_later:
  assumes "iteration_updated s"
  shows "true_response s =
     (Inr (if result s then Message (message s) else EmptyStr),
      s\<lparr>status := (if result s then Some (message s) else status s)\<rparr>)"
  using assms
  by (simp add: true_response_def iterate_flag_set result_def[symmetric] Let_def)

lemma false_response_later:
  assumes "iteration_updated s"
  shows "false_response s =
     (Inr (if result s then EmptyStr else Message (message s)),
      s\<lparr>status := (if result s then status s else Some (message s))\<rparr>)"
  using assms
  by (simp add: false_response_def iterate_flag_set result_def[symmetric] Let_def)


lemma response_of_status [simp]: "response_of (s\<lparr>status := x\<rparr>) = response_of s"
  by (simp add: response_of_def fun_eq_iff)

lemma call_output_first:
  assumes "\<not> iteration_updated s" "counter s = IntV c"
  shows "fst (call_output a s) = Inr (response_of s a)"
    and "(snd (call_output a s))\<lparr>status := None\<rparr> =
      s\<lparr>status := None,
        ctx := (ctx s)(self_id s @ ''_iteration'' \<mapsto> IntV (c + 1)),
        iteration_updated := True,
        stopped := stopped s @ [final_stop s c]\<rparr>"
  using true_response_first [OF assms] false_response_first [OF assms]
  by (cases a; simp add: response_of_def)+

lemma call_output_later:
  assumes "iteration_updated s"
  shows "fst (call_output a s) = Inr (response_of s a)"
    and "(snd (call_output a s))\<lparr>status := None\<rparr> = s\<lparr>status := None\<rparr>"
  using true_response_later [OF assms] false_response_later [OF assms]
  by (cases a; simp add: response_of_def)+

lemma response_of_cong:
  "s'\<lparr>status := None\<rparr> = s\<lparr>status := None\<rparr> \<Longrightarrow> response_of s' = response_of s"
proof -
  assume eq: "s'\<lparr>status := None\<rparr> = s\<lparr>status := None\<rparr>"
  have "response_of s' = response_of (s'\<lparr>status := None\<rparr>)" by simp
  also have "\<dots> = response_of (s\<lparr>status := None\<rparr>)" by (simp only: eq)
  also have "\<dots> = response_of s" by simp
  finally show ?thesis .
qed

lemma flag_cong:
  "s'\<lparr>status := None\<rparr> = s\<lparr>status := None\<rparr> \<Longrightarrow> iteration_updated s' = iteration_updated s"
proof -
  assume eq: "s'\<lparr>status := None\<rparr> = s\<lparr>status := None\<rparr>"
  have "iteration_updated s' = iteration_updated (s'\<lparr>status := None\<rparr>)" by simp
  also have "\<dots> = iteration_updated (s\<lparr>status := None\<rparr>)" by (simp only: eq)
  finally show ?thesis by simp
qed

lemma call_outputs_later:
  "iteration_updated s \<Longrightarrow>
   fst (call_outputs accs s) = Inr (map (response_of s) accs) \<and>
   (snd (call_outputs accs s))\<lparr>status := None\<rparr> = s\<lparr>status := None\<rparr>"
proof (induction accs arbitrary: s)
  case Nil
  show ?case by simp
next
  case (Cons a accs)
  obtain s1 where a: "call_output a s = (Inr (response_of s a), s1)"
    using call_output_later(1) [OF Cons.prems, of a] by (cases "call_output a s") auto
  have s1: "s1\<lparr>status := None\<rparr> = s\<lparr>status := None\<rparr>"
    using call_output_later(2) [OF Cons.prems, of a] a by simp
  have "iteration_updated s1" using flag_cong [OF s1] Cons.prems by simp
  from Cons.IH [OF this]
  have r: "fst (call_outputs accs s1) = Inr (map (response_of s) accs)"
    and t: "(snd (call_outputs accs s1))\<lparr>status := None\<rparr> = s\<lparr>status := None\<rparr>"
    using response_of_cong [OF s1] s1 by simp_all
  obtain s2 where "call_outputs accs s1 = (Inr (map (response_of s) accs), s2)"
    using r by (cases "call_outputs accs s1") auto
  then show ?case using a t by simp
qed

lemma call_outputs_first:
  assumes "\<not> iteration_updated s" "counter s = IntV c" "accs \<noteq> []"
  shows "fst (call_outputs accs s) = Inr (map (response_of s) accs)"
    and "(snd (call_outputs accs s))\<lparr>status := None\<rparr> =
      s\<lparr>status := None,
        ctx := (ctx s)(self_id s @ ''_iteration'' \<mapsto> IntV (c + 1)),
        iteration_updated := True,
        stopped := stopped s @ [final_stop s c]\<rparr>"
proof -
  from assms(3) obtain a as where accs: "accs = a # as" by (cases accs) auto
  obtain s1 where a: "call_output a s = (Inr (response_of s a), s1)"
    using call_output_first(1) [OF assms(1,2), of a] by (cases "call_output a s") auto
  have s1: "s1\<lparr>status := None\<rparr> =
      s\<lparr>status := None,
        ctx := (ctx s)(self_id s @ ''_iteration'' \<mapsto> IntV (c + 1)),
        iteration_updated := True,
        stopped := stopped s @ [final_stop s c]\<rparr>"
    using call_output_first(2) [OF assms(1,2), of a] a by simp
  have "iteration_updated s1 = iteration_updated (s1\<lparr>status := None\<rparr>)" by simp
  then have flag: "iteration_updated s1" by (simp only: s1) simp
  have "response_of s1 = response_of (s1\<lparr>status := None\<rparr>)" by simp
  then have same: "response_of s1 = response_of s"
    by (simp only: s1) (simp add: response_of_def result_def fun_eq_iff)
  from call_outputs_later [OF flag, of as]
  have r: "fst (call_outputs as s1) = Inr (map (response_of s) as)"
    and t: "(snd (call_outputs as s1))\<lparr>status := None\<rparr> = s1\<lparr>status := None\<rparr>"
    using same by simp_all
  obtain s2 where s2: "call_outputs as s1 = (Inr (map (response_of s) as), s2)"
    using r by (cases "call_outputs as s1") auto
  show "fst (call_outputs accs s) = Inr (map (response_of s) accs)"
    using a s2 by (simp add: accs)
  show "(snd (call_outputs accs s))\<lparr>status := None\<rparr> =
      s\<lparr>status := None,
        ctx := (ctx s)(self_id s @ ''_iteration'' \<mapsto> IntV (c + 1)),
        iteration_updated := True,
        stopped := stopped s @ [final_stop s c]\<rparr>"
    using a s2 t s1 by (simp add: accs)
qed

lemma counter_pre_run_setup [simp]: "counter (pre_run_setup s) = counter s"
  by (simp add: counter_def ctx_get_def pre_run_setup_def)

lemma cycle_outcome:
  assumes "counter s = IntV c" "accs \<noteq> []"
  shows "fst (cycle accs s) = Inr (map (response_of s) accs)"
    and "(snd (cycle accs s))\<lparr>status := None\<rparr> =
      s\<lparr>status := None,
        ctx := (ctx s)(self_id s @ ''_iteration'' \<mapsto> IntV (c + 1)),
        iteration_updated := True,
        stopped := stopped s @ [final_stop s c]\<rparr>"
proof -
  have f: "\<not> iteration_updated (pre_run_setup s)" by (simp add: pre_run_setup_def)
  have c: "counter (pre_run_setup s) = IntV c" using assms(1) by simp
  show "fst (cycle accs s) = Inr (map (response_of s) accs)"
    using call_outputs_first(1) [OF f c assms(2)]
    by (simp add: cycle_def pre_run_setup_def response_of_def result_def fun_eq_iff)
  show "(snd (cycle accs s))\<lparr>status := None\<rparr> =
      s\<lparr>status := None,
        ctx := (ctx s)(self_id s @ ''_iteration'' \<mapsto> IntV (c + 1)),
        iteration_updated := True,
        stopped := stopped s @ [final_stop s c]\<rparr>"
    using call_outputs_first(2) [OF f c assms(2)]
    by (simp add: cycle_def pre_run_setup_def final_stop_def untaken_def result_def)
qed

lemma cycle_fields:
  assumes "counter s = IntV c" "accs \<noteq> []"
  shows "ctx (snd (cycle accs s)) = (ctx s)(self_id s @ ''_iteration'' \<mapsto> IntV (c + 1))"
    and "stopped (snd (cycle accs s)) = stopped s @ [final_stop s c]"
    and "iteration_updated (snd (cycle accs s))"
    and "self_id (snd (cycle accs s)) = self_id s"
    and "max_iterations (snd (cycle accs s)) = max_iterations s"
    and "default_route (snd (cycle accs s)) = default_route s"
proof -
  let ?t = "snd (cycle accs s)"
  note eq = cycle_outcome(2) [OF assms]
  have "ctx ?t = ctx (?t\<lparr>status := None\<rparr>)" by simp
  then show "ctx ?t = (ctx s)(self_id s @ ''_iteration'' \<mapsto> IntV (c + 1))"
    by (simp only: eq) simp
  have "stopped ?t = stopped (?t\<lparr>status := None\<rparr>)" by simp
  then show "stopped ?t = stopped s @ [final_stop s c]"
    by (simp only: eq) simp
  have "iteration_updated ?t = iteration_updated (?t\<lparr>status := None\<rparr>)" by simp
  then show "iteration_updated ?t" by (simp only: eq) simp
  have "self_id ?t = self_id (?t\<lparr>status := None\<rparr>)" by simp
  then show "self_id ?t = self_id s" by (simp only: eq) simp
  have "max_iterations ?t = max_iterations (?t\<lparr>status := None\<rparr>)" by simp
  then show "max_iterations ?t = max_iterations s" by (simp only: eq) simp
  have "default_route ?t = default_route (?t\<lparr>status := None\<rparr>)" by simp
  then show "default_route ?t = default_route s" by (simp only: eq) simp
qed

lemma counter_router_empty: "counter (router a b op n d Map.empty) = IntV 0"
  by (simp add: counter_def ctx_get_def router_def)

lemma result_router_same: "result (router a a ''equals'' n d c)"
  by (simp add: result_def router_def evaluate_condition_operands map_of_operations)


section \<open>Which edge is taken and which is stopped\<close>

text \<open>
  C1, as stated, fails.  With \<^verbatim>\<open>max_iterations = 1\<close> and \<^verbatim>\<open>default_route = "false_result"\<close>
  the first invocation already reaches the cap.  On equal texts the predicate holds, so
  \<^verbatim>\<open>true_response\<close> returns the message and \<^verbatim>\<open>false_response\<close> the empty string; the edge
  due to be stopped is \<^verbatim>\<open>false_result\<close>, the default route, so the guard stops
  \<^verbatim>\<open>true_result\<close> instead: the edge that received the message is the one stopped.
\<close>

theorem taken_edge_stopped:
  "fst (cycle [TrueResponse, FalseResponse] (router ''abc'' ''abc'' ''equals'' 1 ''false_result'' Map.empty))
     = Inr [Message ''payload'', EmptyStr] \<and>
   stopped (snd (cycle [TrueResponse, FalseResponse]
       (router ''abc'' ''abc'' ''equals'' 1 ''false_result'' Map.empty))) = [''true_result'']"
  by code_simp

text \<open>
  C1, amended.  In a cycle with at least one accessor call, on a counter that is absent or
  an integer \<open>c\<close>: \<^verbatim>\<open>true_response\<close> returns the message iff the predicate holds and
  \<^verbatim>\<open>false_response\<close> iff it does not, the other returning the empty string; exactly one
  edge is stopped.  It is the edge that did not receive the message, unless \<open>c + 1\<close> has
  reached \<^verbatim>\<open>max_iterations\<close> and that edge is the default route: then the edge that received
  the message is stopped.
\<close>

theorem router_decision:
  assumes "counter s = IntV c" and "accs \<noteq> []"
  shows "fst (cycle accs s) =
           Inr (map (\<lambda>a. if (a = TrueResponse) = result s then Message (message s) else EmptyStr) accs) \<and>
         stopped (snd (cycle accs s)) =
           stopped s @ [if max_iterations s \<le> c + 1 \<and> untaken s = default_route s
                        then opposite (untaken s) else untaken s]"
proof -
  have "response_of s = (\<lambda>a. if (a = TrueResponse) = result s then Message (message s) else EmptyStr)"
    by (simp add: response_of_def fun_eq_iff)
  then show ?thesis
    using cycle_outcome(1) [OF assms] cycle_fields(2) [OF assms]
    by (simp add: final_stop_def)
qed

theorem router_decision_witness:
  "counter (router ''abc'' ''abc'' ''equals'' 10 ''false_result'' Map.empty) = IntV 0 \<and>
   [TrueResponse, FalseResponse] \<noteq> [] \<and>
   fst (cycle [TrueResponse, FalseResponse] (router ''abc'' ''abc'' ''equals'' 10 ''false_result'' Map.empty))
     = Inr [Message ''payload'', EmptyStr] \<and>
   stopped (snd (cycle [TrueResponse, FalseResponse]
       (router ''abc'' ''abc'' ''equals'' 10 ''false_result'' Map.empty))) = [''false_result'']"
  using router_decision [of "router ''abc'' ''abc'' ''equals'' 10 ''false_result'' Map.empty" 0
      "[TrueResponse, FalseResponse]"]
    counter_router_empty [of "''abc''" "''abc''" "''equals''" 10 "''false_result''"]
    result_router_same [of "''abc''" 10 "''false_result''" Map.empty]
  by (simp add: untaken_def opposite_def) (simp add: router_def)


section \<open>The counter\<close>

text \<open>
  C4.  In one cycle (\<^verbatim>\<open>_pre_run_setup\<close>, then the accessors in any order and number, at
  least one), on a counter that is absent or an integer \<open>c\<close>, the counter ends at \<open>c + 1\<close>:
  the flag set by the first call keeps every later call from counting again.
\<close>

theorem counter_incremented_once:
  assumes "counter s = IntV c" and "accs \<noteq> []"
  shows "counter (snd (cycle accs s)) = IntV (c + 1)"
  using cycle_fields(1,4) [OF assms]
  by (simp add: counter_def ctx_get_def)

theorem counter_incremented_once_witness:
  "counter (router ''abc'' ''xyz'' ''equals'' 10 ''false_result'' Map.empty) = IntV 0 \<and>
   [TrueResponse, FalseResponse, TrueResponse] \<noteq> [] \<and>
   counter (snd (cycle [TrueResponse, FalseResponse, TrueResponse]
      (router ''abc'' ''xyz'' ''equals'' 10 ''false_result'' Map.empty))) = IntV 1"
  using counter_incremented_once [of "router ''abc'' ''xyz'' ''equals'' 10 ''false_result'' Map.empty" 0
      "[TrueResponse, FalseResponse, TrueResponse]"]
    counter_router_empty [of "''abc''" "''xyz''" "''equals''" 10 "''false_result''"]
  by simp


section \<open>What the guard touches\<close>

text \<open>
  C8.  A call of \<^verbatim>\<open>iterate_and_stop_once\<close> that returns leaves every key of the run
  context other than \<^verbatim>\<open>"<_id>_iteration"\<close> as it was, appends at most one edge to the
  stopped ones, and changes no attribute of the component other than the flag.
\<close>

theorem iterate_and_stop_once_frame:
  assumes "iterate_and_stop_once r s = Inr s'"
  shows "ctx s' = (ctx s)(self_id s @ ''_iteration'' := ctx s' (self_id s @ ''_iteration'')) \<and>
         (stopped s' = stopped s \<or> (\<exists>e. stopped s' = stopped s @ [e])) \<and>
         s' = s\<lparr>ctx := ctx s', iteration_updated := iteration_updated s', stopped := stopped s'\<rparr>"
proof (cases "iteration_updated s")
  case True
  then have "s' = s" using assms by (simp add: iterate_flag_set)
  then show ?thesis by simp
next
  case False
  show ?thesis
  proof (cases "counter s")
    case (IntV c)
    from iterate_first [OF False IntV, of r] assms
    have s': "s' = s\<lparr>ctx := (ctx s)(self_id s @ ''_iteration'' \<mapsto> IntV (c + 1)),
           iteration_updated := True,
           stopped := stopped s @
             [if c + 1 \<ge> max_iterations s \<and> r = default_route s then opposite r else r]\<rparr>"
      by simp
    show ?thesis by (simp add: s')
  next
    case (OtherV v)
    from iterate_type_error [OF False OtherV, of r] assms show ?thesis by simp
  qed
qed

theorem iterate_and_stop_once_frame_witness:
  "iterate_and_stop_once ''false_result''
      (router ''abc'' ''abc'' ''equals'' 10 ''true_result'' [''other'' \<mapsto> OtherV ''x'']) =
     Inr ((router ''abc'' ''abc'' ''equals'' 10 ''true_result'' [''other'' \<mapsto> OtherV ''x''])
            \<lparr>ctx := [''other'' \<mapsto> OtherV ''x'', ''ConditionalRouter-1_iteration'' \<mapsto> IntV 1],
             iteration_updated := True, stopped := [''false_result'']\<rparr>) \<and>
   [''other'' \<mapsto> OtherV ''x'', ''ConditionalRouter-1_iteration'' \<mapsto> IntV 1] ''other'' =
     Some (OtherV ''x'')"
proof -
  let ?s = "router ''abc'' ''abc'' ''equals'' 10 ''true_result'' [''other'' \<mapsto> OtherV ''x'']"
  let ?s' = "?s\<lparr>ctx := [''other'' \<mapsto> OtherV ''x'', ''ConditionalRouter-1_iteration'' \<mapsto> IntV 1],
             iteration_updated := True, stopped := [''false_result'']\<rparr>"
  have h: "iterate_and_stop_once ''false_result'' ?s = Inr ?s'"
    by (simp add: iterate_and_stop_once_def router_def ctx_get_def update_ctx_def stop_def)
  from iterate_and_stop_once_frame [OF h]
  have "ctx ?s' = (ctx ?s)(self_id ?s @ ''_iteration'' := ctx ?s' (self_id ?s @ ''_iteration''))"
    by blast
  then have "ctx ?s' ''other'' = ctx ?s ''other''"
    by (simp add: router_def)
  then show ?thesis using h by (simp add: router_def)
qed


section \<open>No exception\<close>

text \<open>
  C9.  Whatever the texts, the operator, the iteration cap, the default route and the
  flag: when the counter is absent from the run context or an integer,
  \<^verbatim>\<open>iterate_and_stop_once\<close>, \<^verbatim>\<open>true_response\<close>, \<^verbatim>\<open>false_response\<close> and a whole cycle
  return a value and raise nothing.  (\<^verbatim>\<open>evaluate_condition\<close> has no failing operation.)
\<close>

theorem decision_logic_raises_nothing:
  assumes "counter s = IntV c"
  shows "(\<exists>s'. iterate_and_stop_once r s = Inr s') \<and>
         (\<exists>m s'. true_response s = (Inr m, s')) \<and>
         (\<exists>m s'. false_response s = (Inr m, s')) \<and>
         (\<exists>ms s'. cycle accs s = (Inr ms, s'))"
proof -
  have 1: "\<exists>s'. iterate_and_stop_once r s = Inr s'"
    by (cases "iteration_updated s") (simp_all add: iterate_flag_set iterate_first [OF _ assms])
  have 2: "\<exists>m s'. true_response s = (Inr m, s')"
    by (cases "iteration_updated s")
       (simp_all add: true_response_later true_response_first [OF _ assms])
  have 3: "\<exists>m s'. false_response s = (Inr m, s')"
    by (cases "iteration_updated s")
       (simp_all add: false_response_later false_response_first [OF _ assms])
  have 4: "\<exists>ms s'. cycle accs s = (Inr ms, s')"
  proof (cases accs)
    case Nil
    then show ?thesis by (simp add: cycle_def)
  next
    case (Cons a as)
    then have "accs \<noteq> []" by simp
    from cycle_outcome(1) [OF assms this] show ?thesis
      by (cases "cycle accs s") auto
  qed
  from 1 2 3 4 show ?thesis by blast
qed

theorem decision_logic_raises_nothing_witness:
  "counter (router [] [] ''no such operator'' (- 1) ''true_result'' Map.empty) = IntV 0 \<and>
   (\<exists>s'. iterate_and_stop_once ''false_result''
            (router [] [] ''no such operator'' (- 1) ''true_result'' Map.empty) = Inr s') \<and>
   (\<exists>m s'. true_response (router [] [] ''no such operator'' (- 1) ''true_result'' Map.empty)
            = (Inr m, s')) \<and>
   (\<exists>m s'. false_response (router [] [] ''no such operator'' (- 1) ''true_result'' Map.empty)
            = (Inr m, s')) \<and>
   (\<exists>ms s'. cycle [FalseResponse, TrueResponse]
            (router [] [] ''no such operator'' (- 1) ''true_result'' Map.empty) = (Inr ms, s'))"
proof -
  have h: "counter (router [] [] ''no such operator'' (- 1) ''true_result'' Map.empty) = IntV 0"
    by (rule counter_router_empty)
  from decision_logic_raises_nothing [OF h, of "''false_result''" "[FalseResponse, TrueResponse]"] h
  show ?thesis by blast
qed

text \<open>
  The hypothesis on the counter is needed: a value under the key that is not a number
  makes the addition raise.
\<close>

lemma type_error_reachable:
  "fst (true_response (router ''a'' ''b'' ''equals'' 10 ''false_result''
          [''ConditionalRouter-1_iteration'' \<mapsto> OtherV ''None''])) = Inl TypeError"
  by code_simp


section \<open>The order of the accessors\<close>

lemma true_response_error:
  assumes "\<not> iteration_updated s" "counter s = OtherV v"
  shows "true_response s =
     (Inl TypeError, s\<lparr>status := (if result s then Some (message s) else status s)\<rparr>)"
  using assms
  by (simp add: true_response_def iterate_type_error result_def[symmetric] Let_def)

lemma false_response_error:
  assumes "\<not> iteration_updated s" "counter s = OtherV v"
  shows "false_response s =
     (Inl TypeError, s\<lparr>status := (if result s then status s else Some (message s))\<rparr>)"
  using assms
  by (simp add: false_response_def iterate_type_error result_def[symmetric] Let_def)

lemma call_outputs_error:
  assumes "\<not> iteration_updated s" "counter s = OtherV v" "accs \<noteq> []"
  shows "fst (call_outputs accs s) = Inl TypeError"
    and "(snd (call_outputs accs s))\<lparr>status := None\<rparr> = s\<lparr>status := None\<rparr>"
proof -
  from assms(3) obtain a as where accs: "accs = a # as" by (cases accs) auto
  show "fst (call_outputs accs s) = Inl TypeError"
    using true_response_error [OF assms(1,2)] false_response_error [OF assms(1,2)]
    by (cases a) (simp_all add: accs)
  show "(snd (call_outputs accs s))\<lparr>status := None\<rparr> = s\<lparr>status := None\<rparr>"
    using true_response_error [OF assms(1,2)] false_response_error [OF assms(1,2)]
    by (cases a) (simp_all add: accs)
qed

lemma cycle_error_fields:
  assumes "counter s = OtherV v" "accs \<noteq> []"
  shows "fst (cycle accs s) = Inl TypeError"
    and "ctx (snd (cycle accs s)) = ctx s"
    and "stopped (snd (cycle accs s)) = stopped s"
    and "self_id (snd (cycle accs s)) = self_id s"
proof -
  let ?t = "snd (cycle accs s)"
  have f: "\<not> iteration_updated (pre_run_setup s)" by (simp add: pre_run_setup_def)
  have c: "counter (pre_run_setup s) = OtherV v" using assms(1) by simp
  show "fst (cycle accs s) = Inl TypeError"
    using call_outputs_error(1) [OF f c assms(2)] by (simp add: cycle_def)
  have eq: "?t\<lparr>status := None\<rparr> = (pre_run_setup s)\<lparr>status := None\<rparr>"
    using call_outputs_error(2) [OF f c assms(2)] by (simp add: cycle_def)
  have "ctx ?t = ctx (?t\<lparr>status := None\<rparr>)" by simp
  then show "ctx ?t = ctx s" by (simp only: eq) (simp add: pre_run_setup_def)
  have "stopped ?t = stopped (?t\<lparr>status := None\<rparr>)" by simp
  then show "stopped ?t = stopped s" by (simp only: eq) (simp add: pre_run_setup_def)
  have "self_id ?t = self_id (?t\<lparr>status := None\<rparr>)" by simp
  then show "self_id ?t = self_id s" by (simp only: eq) (simp add: pre_run_setup_def)
qed

lemma cycle_ctx_stopped:
  assumes "accs \<noteq> []"
  shows "ctx (snd (cycle accs s)) = ctx (snd (cycle [TrueResponse] s))"
    and "stopped (snd (cycle accs s)) = stopped (snd (cycle [TrueResponse] s))"
    and "self_id (snd (cycle accs s)) = self_id s"
proof -
  have ne: "[TrueResponse] \<noteq> []" by simp
  show "ctx (snd (cycle accs s)) = ctx (snd (cycle [TrueResponse] s))"
  proof (cases "counter s")
    case (IntV c)
    show ?thesis by (simp only: cycle_fields(1) [OF IntV assms] cycle_fields(1) [OF IntV ne])
  next
    case (OtherV v)
    show ?thesis
      by (simp only: cycle_error_fields(2) [OF OtherV assms] cycle_error_fields(2) [OF OtherV ne])
  qed
  show "stopped (snd (cycle accs s)) = stopped (snd (cycle [TrueResponse] s))"
  proof (cases "counter s")
    case (IntV c)
    show ?thesis by (simp only: cycle_fields(2) [OF IntV assms] cycle_fields(2) [OF IntV ne])
  next
    case (OtherV v)
    show ?thesis
      by (simp only: cycle_error_fields(3) [OF OtherV assms] cycle_error_fields(3) [OF OtherV ne])
  qed
  show "self_id (snd (cycle accs s)) = self_id s"
  proof (cases "counter s")
    case (IntV c)
    show ?thesis by (rule cycle_fields(4) [OF IntV assms])
  next
    case (OtherV v)
    show ?thesis by (rule cycle_error_fields(4) [OF OtherV assms])
  qed
qed

lemma cycle_single:
  "snd (cycle [a] s) = snd (call_output a (pre_run_setup s))"
  by (simp add: cycle_def split: prod.splits sum.splits)

lemma result_router_abc_b: "\<not> result (router ''abc'' ''b'' ''starts with'' 10 ''false_result'' Map.empty)"
  by code_simp

text \<open>
  C10.  Two cycles from the same state, each with at least one accessor call, end with the
  same stopped edges, the same run context and the same counter, whichever accessors are
  called, in whichever order and number.  The first call alone acts: the stopped edges and
  the run context at the end of the cycle are those right after its first call.  And it
  does act: on a counter that is absent or an integer \<open>c\<close> it stores \<open>c + 1\<close> under the key
  and stops one edge, the same whichever accessor it is (the edge that does not receive the
  message, or the opposite one under the iteration guard); on a value that is not a number
  the first call raises, and nothing is stored or stopped.
\<close>

theorem outcome_independent_of_accessors:
  assumes "accs \<noteq> []" and "accs' \<noteq> []"
  shows "stopped (snd (cycle accs s)) = stopped (snd (cycle accs' s)) \<and>
         ctx (snd (cycle accs s)) = ctx (snd (cycle accs' s)) \<and>
         counter (snd (cycle accs s)) = counter (snd (cycle accs' s)) \<and>
         stopped (snd (cycle accs s)) = stopped (snd (call_output (hd accs) (pre_run_setup s))) \<and>
         ctx (snd (cycle accs s)) = ctx (snd (call_output (hd accs) (pre_run_setup s))) \<and>
         (case counter s of
            IntV c \<Rightarrow>
              stopped (snd (cycle accs s)) =
                stopped s @ [if max_iterations s \<le> c + 1 \<and> untaken s = default_route s
                             then opposite (untaken s) else untaken s] \<and>
              ctx (snd (cycle accs s)) = (ctx s)(self_id s @ ''_iteration'' \<mapsto> IntV (c + 1))
          | OtherV v \<Rightarrow>
              stopped (snd (cycle accs s)) = stopped s \<and> ctx (snd (cycle accs s)) = ctx s)"
proof -
  have st: "stopped (snd (cycle accs s)) = stopped (snd (cycle accs' s))"
    by (simp only: cycle_ctx_stopped(2) [OF assms(1)] cycle_ctx_stopped(2) [OF assms(2)])
  have cx: "ctx (snd (cycle accs s)) = ctx (snd (cycle accs' s))"
    by (simp only: cycle_ctx_stopped(1) [OF assms(1)] cycle_ctx_stopped(1) [OF assms(2)])
  have cn: "counter (snd (cycle accs s)) = counter (snd (cycle accs' s))"
    by (simp add: counter_def ctx_get_def cx cycle_ctx_stopped(3) [OF assms(1)]
          cycle_ctx_stopped(3) [OF assms(2)])
  have one: "[hd accs] \<noteq> []" by simp
  have st1: "stopped (snd (cycle accs s)) = stopped (snd (call_output (hd accs) (pre_run_setup s)))"
    by (simp only: cycle_ctx_stopped(2) [OF assms(1)] cycle_ctx_stopped(2) [OF one]
          cycle_single [symmetric])
  have cx1: "ctx (snd (cycle accs s)) = ctx (snd (call_output (hd accs) (pre_run_setup s)))"
    by (simp only: cycle_ctx_stopped(1) [OF assms(1)] cycle_ctx_stopped(1) [OF one]
          cycle_single [symmetric])
  have act: "(case counter s of
            IntV c \<Rightarrow>
              stopped (snd (cycle accs s)) =
                stopped s @ [if max_iterations s \<le> c + 1 \<and> untaken s = default_route s
                             then opposite (untaken s) else untaken s] \<and>
              ctx (snd (cycle accs s)) = (ctx s)(self_id s @ ''_iteration'' \<mapsto> IntV (c + 1))
          | OtherV v \<Rightarrow>
              stopped (snd (cycle accs s)) = stopped s \<and> ctx (snd (cycle accs s)) = ctx s)"
  proof (cases "counter s")
    case (IntV c)
    show ?thesis
      using cycle_fields(1,2) [OF IntV assms(1)] by (simp add: IntV final_stop_def)
  next
    case (OtherV v)
    show ?thesis
      using cycle_error_fields(2,3) [OF OtherV assms(1)] by (simp add: OtherV)
  qed
  from st cx cn st1 cx1 act show ?thesis by blast
qed

theorem outcome_independent_of_accessors_witness:
  "[FalseResponse] \<noteq> [] \<and> [TrueResponse, FalseResponse] \<noteq> [] \<and>
   stopped (snd (cycle [FalseResponse] (router ''abc'' ''b'' ''starts with'' 10 ''false_result'' Map.empty)))
     = stopped (snd (cycle [TrueResponse, FalseResponse]
          (router ''abc'' ''b'' ''starts with'' 10 ''false_result'' Map.empty))) \<and>
   stopped (snd (cycle [FalseResponse] (router ''abc'' ''b'' ''starts with'' 10 ''false_result'' Map.empty)))
     = [''true_result''] \<and>
   ctx (snd (cycle [FalseResponse] (router ''abc'' ''b'' ''starts with'' 10 ''false_result'' Map.empty)))
     = [''ConditionalRouter-1_iteration'' \<mapsto> IntV 1]"
proof -
  let ?s = "router ''abc'' ''b'' ''starts with'' 10 ''false_result'' Map.empty"
  have h1: "[FalseResponse] \<noteq> []" and h2: "[TrueResponse, FalseResponse] \<noteq> []" by simp_all
  have c: "counter ?s = IntV 0" by (rule counter_router_empty)
  have u: "untaken ?s = ''true_result''"
    using result_router_abc_b by (simp add: untaken_def)
  have f: "max_iterations ?s = 10" "default_route ?s = ''false_result''" "stopped ?s = []"
    "ctx ?s = Map.empty" "self_id ?s = ''ConditionalRouter-1''"
    by (simp_all add: router_def)
  note t = outcome_independent_of_accessors [OF h1 h2, of ?s]
  from t have same: "stopped (snd (cycle [FalseResponse] ?s)) =
      stopped (snd (cycle [TrueResponse, FalseResponse] ?s))"
    by (rule conjunct1)
  from t have "case counter ?s of
            IntV c \<Rightarrow>
              stopped (snd (cycle [FalseResponse] ?s)) =
                stopped ?s @ [if max_iterations ?s \<le> c + 1 \<and> untaken ?s = default_route ?s
                             then opposite (untaken ?s) else untaken ?s] \<and>
              ctx (snd (cycle [FalseResponse] ?s)) =
                (ctx ?s)(self_id ?s @ ''_iteration'' \<mapsto> IntV (c + 1))
          | OtherV v \<Rightarrow>
              stopped (snd (cycle [FalseResponse] ?s)) = stopped ?s \<and>
              ctx (snd (cycle [FalseResponse] ?s)) = ctx ?s"
    by blast
  then have act: "stopped (snd (cycle [FalseResponse] ?s)) = [''true_result''] \<and>
      ctx (snd (cycle [FalseResponse] ?s)) = [''ConditionalRouter-1_iteration'' \<mapsto> IntV 1]"
    by (simp add: c u f)
  from same act h1 h2 show ?thesis by blast
qed

section \<open>The iteration guard over a run\<close>

lemma set_inputs_fields [simp]:
  "counter (set_inputs i s) = counter s"
  "max_iterations (set_inputs i s) = max_iterations s"
  "default_route (set_inputs i s) = default_route s"
  "stopped (set_inputs i s) = stopped s"
  by (simp_all add: set_inputs_def counter_def ctx_get_def)

lemma untaken_set_inputs:
  "untaken (set_inputs i s) =
     (if evaluate_condition (inv_input_text i) (inv_match_text i) (inv_operator i)
           (inv_case_sensitive i)
      then ''false_result'' else ''true_result'')"
  by (simp add: untaken_def result_def set_inputs_def)

lemma opposite_neq: "opposite r \<noteq> r"
  by (simp add: opposite_def)

lemma invoke_fields:
  assumes "counter s = IntV c"
  shows "\<exists>ms s1 c'. invoke i s = (Inr ms, s1) \<and> c \<le> c' \<and> counter s1 = IntV c' \<and>
           max_iterations s1 = max_iterations s \<and> default_route s1 = default_route s"
proof (cases "inv_outputs i = []")
  case True
  then show ?thesis using assms
    by (simp add: invoke_def cycle_def pre_run_setup_def counter_def ctx_get_def set_inputs_def)
next
  case False
  let ?s = "set_inputs i s"
  have c: "counter ?s = IntV c" using assms by simp
  have 1: "fst (cycle (inv_outputs i) ?s) = Inr (map (response_of ?s) (inv_outputs i))"
    by (rule cycle_outcome(1) [OF c False])
  have 2: "counter (snd (cycle (inv_outputs i) ?s)) = IntV (c + 1)"
    using cycle_fields(1,4) [OF c False] by (simp add: counter_def ctx_get_def)
  have 3: "max_iterations (snd (cycle (inv_outputs i) ?s)) = max_iterations s"
    using cycle_fields(5) [OF c False] by simp
  have 4: "default_route (snd (cycle (inv_outputs i) ?s)) = default_route s"
    using cycle_fields(6) [OF c False] by simp
  obtain r s1 where rs: "cycle (inv_outputs i) ?s = (r, s1)" by (cases "cycle (inv_outputs i) ?s")
  with 1 2 3 4 show ?thesis by (simp add: invoke_def)
qed

lemma run_fields:
  "counter s = IntV c \<Longrightarrow>
   \<exists>s' c'. run is s = Inr s' \<and> c \<le> c' \<and> counter s' = IntV c' \<and>
      max_iterations s' = max_iterations s \<and> default_route s' = default_route s"
proof (induction "is" arbitrary: s c)
  case Nil
  then show ?case by simp
next
  case (Cons i "is")
  from invoke_fields [OF Cons.prems, of i] obtain ms s1 c1
    where i: "invoke i s = (Inr ms, s1)" and le: "c \<le> c1" and c1: "counter s1 = IntV c1"
      and m: "max_iterations s1 = max_iterations s" and d: "default_route s1 = default_route s"
    by blast
  from Cons.IH [OF c1] obtain s' c'
    where r: "run is s1 = Inr s'" and le': "c1 \<le> c'" and c': "counter s' = IntV c'"
      and m': "max_iterations s' = max_iterations s1" and d': "default_route s' = default_route s1"
    by blast
  have "run (i # is) s = Inr s'" using i r by simp
  moreover have "c \<le> c'" using le le' by simp
  ultimately show ?case using c' m m' d d' by auto
qed

text \<open>
  C2.  Let the counter be \<open>c\<close> before an invocation, with \<open>c + 1\<close> at least
  \<^verbatim>\<open>max_iterations\<close>.  Then the run of any further invocations \<open>is\<close> from there returns, and
  an invocation \<open>i\<close> made after them (that very invocation when \<open>is\<close> is empty, a later one
  of the same run otherwise) stops exactly one edge: the edge \<open>u\<close> that does not receive the
  message, or the opposite edge when \<open>u\<close> is the default route.  The edge stopped is never
  the default route.
\<close>

theorem guard_keeps_default_route:
  assumes "counter s = IntV c" and "max_iterations s \<le> c + 1" and "inv_outputs i \<noteq> []"
  shows "\<exists>s'. run is s = Inr s' \<and>
           (let u = (if evaluate_condition (inv_input_text i) (inv_match_text i) (inv_operator i)
                          (inv_case_sensitive i)
                     then ''false_result'' else ''true_result'')
            in stopped (snd (invoke i s')) =
                 stopped s' @ [if u = default_route s then opposite u else u]) \<and>
           last (stopped (snd (invoke i s'))) \<noteq> default_route s"
proof -
  from run_fields [OF assms(1), of "is"] obtain s' c'
    where r: "run is s = Inr s'" and le: "c \<le> c'" and c': "counter s' = IntV c'"
      and m: "max_iterations s' = max_iterations s" and d: "default_route s' = default_route s"
    by blast
  let ?s = "set_inputs i s'"
  have c: "counter ?s = IntV c'" using c' by simp
  have cap: "max_iterations ?s \<le> c' + 1" using assms(2) le m by simp
  have st: "stopped (snd (invoke i s')) = stopped s' @ [final_stop ?s c']"
    using cycle_fields(2) [OF c assms(3)] by (simp add: invoke_def)
  have fs: "final_stop ?s c' =
      (if untaken ?s = default_route s then opposite (untaken ?s) else untaken ?s)"
    using cap d by (simp add: final_stop_def)
  have ne: "final_stop ?s c' \<noteq> default_route s"
    using opposite_neq [of "untaken ?s"] by (cases "untaken ?s = default_route s") (auto simp: fs)
  show ?thesis
    using r st fs ne by (simp add: Let_def untaken_set_inputs)
qed

theorem guard_keeps_default_route_witness:
  "counter (router ''abc'' ''abc'' ''equals'' 3 ''false_result''
       [''ConditionalRouter-1_iteration'' \<mapsto> IntV 2]) = IntV 2 \<and>
   max_iterations (router ''abc'' ''abc'' ''equals'' 3 ''false_result''
       [''ConditionalRouter-1_iteration'' \<mapsto> IntV 2]) \<le> 2 + 1 \<and>
   inv_outputs (Invocation ''abc'' ''abc'' ''equals'' False ''payload''
       [TrueResponse, FalseResponse]) \<noteq> [] \<and>
   (\<exists>s'. run [Invocation ''abc'' ''abd'' ''equals'' False ''payload'' [FalseResponse, TrueResponse]]
            (router ''abc'' ''abc'' ''equals'' 3 ''false_result''
               [''ConditionalRouter-1_iteration'' \<mapsto> IntV 2]) = Inr s' \<and>
      stopped (snd (invoke (Invocation ''abc'' ''abc'' ''equals'' False ''payload''
            [TrueResponse, FalseResponse]) s')) = stopped s' @ [''true_result''] \<and>
      last (stopped (snd (invoke (Invocation ''abc'' ''abc'' ''equals'' False ''payload''
            [TrueResponse, FalseResponse]) s'))) \<noteq> ''false_result'')"
proof -
  let ?s = "router ''abc'' ''abc'' ''equals'' 3 ''false_result''
       [''ConditionalRouter-1_iteration'' \<mapsto> IntV 2]"
  let ?i = "Invocation ''abc'' ''abc'' ''equals'' False ''payload'' [TrueResponse, FalseResponse]"
  have h1: "counter ?s = IntV 2" by (simp add: counter_def ctx_get_def router_def)
  have h2: "max_iterations ?s \<le> 2 + 1" by (simp add: router_def)
  have h3: "inv_outputs ?i \<noteq> []" by simp
  have e: "evaluate_condition ''abc'' ''abc'' ''equals'' False"
    by (simp add: evaluate_condition_operands map_of_operations)
  have d: "default_route ?s = ''false_result''" by (simp add: router_def)
  from guard_keeps_default_route [OF h1 h2 h3,
      of "[Invocation ''abc'' ''abd'' ''equals'' False ''payload'' [FalseResponse, TrueResponse]]"]
  show ?thesis using h1 h2 h3 by (simp add: e d opposite_def)
qed

end
